theory Spec2Isabelle
  imports Main "HOL-Library.Multiset"
begin

section \<open>The sorted integer array of package garray\<close>

text \<open>
  The development embeds \<^verbatim>\<open>g/container/garray/garray_sorted_int.go\<close>, on a 64-bit
  platform. Go's \<^verbatim>\<open>int\<close> is modelled as \<^typ>\<open>int\<close>; where a caller-supplied value
  enters an addition, subtraction or multiplication that can leave the range of
  \<^verbatim>\<open>int\<close>, the wrap-around is written out with \<open>wrap64\<close>. Index arithmetic inside
  the loops stays below twice the length of the backing array and cannot wrap. A slice
  is modelled by its contents; a \<^verbatim>\<open>nil\<close> slice that the code returns is \<open>None\<close>. A
  runtime panic is a value of type \<open>error\<close>, and every function that can panic returns
  \<open>error + 'a\<close>. The locks are no part of the state: the model is sequential, and only
  for \<^verbatim>\<open>Merge\<close> the calls on the mutexes are listed.
\<close>

subsection \<open>Go runtime: panics, indexing, slicing, make, copy\<close>

datatype error =
    IndexOutOfRange
  | SliceBoundsOutOfRange
  | MakeSliceLenOutOfRange
  | NilDereference

definition wrap64 :: "int \<Rightarrow> int" where
  "wrap64 x = (x + 2 ^ 63) mod 2 ^ 64 - 2 ^ 63"


text \<open>
  \<^verbatim>\<open>xs[lo:hi]\<close>: panics unless \<open>0 \<le> lo \<le> hi \<le> cap(xs)\<close>. Every upper bound the
  file passes is either negative or at most \<open>len(xs)\<close>, so the capacity is taken to be
  the length.
\<close>

definition go_slice :: "'a list \<Rightarrow> int \<Rightarrow> int \<Rightarrow> error + 'a list" where
  "go_slice xs lo hi =
     (if 0 \<le> lo \<and> lo \<le> hi \<and> hi \<le> int (length xs)
      then Inr (take (nat hi - nat lo) (drop (nat lo) xs))
      else Inl SliceBoundsOutOfRange)"

text \<open>\<^verbatim>\<open>xs[lo:]\<close> is \<^verbatim>\<open>xs[lo:len(xs)]\<close>.\<close>

definition go_slice_from :: "'a list \<Rightarrow> int \<Rightarrow> error + 'a list" where
  "go_slice_from xs lo = go_slice xs lo (int (length xs))"

text \<open>
  \<^verbatim>\<open>make([]int, n)\<close>: \<open>n\<close> zeroes; panics for a negative length. Running out of
  memory is outside the model.
\<close>

definition go_make :: "int \<Rightarrow> error + int list" where
  "go_make n = (if n < 0 then Inl MakeSliceLenOutOfRange else Inr (replicate (nat n) 0))"

text \<open>\<^verbatim>\<open>copy(dst, src)\<close> overwrites the first \<open>min (len dst) (len src)\<close> cells of \<open>dst\<close>.\<close>

definition go_copy :: "'a list \<Rightarrow> 'a list \<Rightarrow> 'a list" where
  "go_copy dst src = take (length dst) src @ drop (length src) dst"

subsection \<open>The read-write mutex\<close>

text \<open>
  Modelled from the spec: package \<^verbatim>\<open>g/internal/rwmutex\<close> is not part of the source
  at hand. The constructors' comment says of the variadic parameter \<^verbatim>\<open>unsafe\<close> that it
  is "false in default, means concurrent-safe in default"; the specification calls safe
  mode the default, fixed at construction. \<^verbatim>\<open>IsSafe\<close> reports the mode: \<^verbatim>\<open>Range\<close>
  and \<^verbatim>\<open>Slice\<close> copy exactly when it holds, which their comment calls the
  "concurrent-safe usage". The variadic parameter is a list, of which the first
  element counts.
\<close>

record RWMutex =
  safe :: bool

definition New :: "bool list \<Rightarrow> RWMutex" where
  "New unsafe = \<lparr>safe = (case unsafe of [] \<Rightarrow> True | u # _ \<Rightarrow> \<not> u)\<rparr>"

definition IsSafe :: "RWMutex \<Rightarrow> bool" where
  "IsSafe m = safe m"

subsection \<open>The structure and its constructors\<close>

text \<open>
  The field \<^verbatim>\<open>compareFunc\<close> is private and only ever holds the closure that
  \<^verbatim>\<open>NewSortedIntArraySize\<close> stores, so it is a constant of the model.

  The operations that work on one structure are modelled on a structure that holds the
  contents of its backing array (\<open>SortedIntArray\<close>). Where the identity of the backing
  array matters, in \<^verbatim>\<open>NewSortedIntArrayFrom\<close> and \<^verbatim>\<open>Clone\<close>, the field holds a
  reference into a heap of arrays instead; the record is generic in what the field holds.
\<close>

record 'arr SortedIntArray_of =
  mu :: RWMutex
  array :: 'arr
  unique :: bool

type_synonym SortedIntArray = "int list SortedIntArray_of"

definition compareFunc :: "int \<Rightarrow> int \<Rightarrow> int" where
  "compareFunc v1 v2 = (if v1 < v2 then - 1 else if v1 > v2 then 1 else 0)"

definition NewSortedIntArraySize :: "int \<Rightarrow> bool list \<Rightarrow> SortedIntArray" where
  "NewSortedIntArraySize cap unsafe = \<lparr>mu = New unsafe, array = [], unique = False\<rparr>"

definition NewSortedIntArray :: "bool list \<Rightarrow> SortedIntArray" where
  "NewSortedIntArray unsafe = NewSortedIntArraySize 0 unsafe"

subsection \<open>A heap of backing arrays: NewSortedIntArrayFrom and Clone\<close>

text \<open>
  A reference names a backing array; the heap gives the contents of each, and the
  references below \<open>top\<close> are the allocated ones. \<^verbatim>\<open>make\<close> allocates the next
  reference, \<^verbatim>\<open>copy\<close> and \<^verbatim>\<open>sort.Ints\<close> write through a reference. On integers
  \<^verbatim>\<open>sort.Ints\<close> leaves \<^term>\<open>sort xs\<close>.
\<close>

type_synonym ref = nat

record heap =
  cells :: "ref \<Rightarrow> int list"
  top :: ref

definition make_in :: "heap \<Rightarrow> int \<Rightarrow> error + (heap \<times> ref)" where
  "make_in h n =
     (case go_make n of
        Inl e \<Rightarrow> Inl e
      | Inr zs \<Rightarrow> Inr (h\<lparr>cells := (cells h)(top h := zs), top := Suc (top h)\<rparr>, top h))"

definition copy_in :: "heap \<Rightarrow> ref \<Rightarrow> ref \<Rightarrow> heap" where
  "copy_in h dst src = h\<lparr>cells := (cells h)(dst := go_copy (cells h dst) (cells h src))\<rparr>"

definition sort_Ints_in :: "heap \<Rightarrow> ref \<Rightarrow> heap" where
  "sort_Ints_in h r = h\<lparr>cells := (cells h)(r := sort (cells h r))\<rparr>"

text \<open>
  \<^verbatim>\<open>NewSortedIntArrayFrom\<close> builds an empty structure, makes the caller's array its
  backing array and sorts that array in place.
\<close>

definition NewSortedIntArrayFrom ::
  "heap \<Rightarrow> ref \<Rightarrow> bool list \<Rightarrow> heap \<times> ref SortedIntArray_of" where
  "NewSortedIntArrayFrom h r unsafe =
     (let a = NewSortedIntArraySize 0 unsafe in
      (sort_Ints_in h r, \<lparr>mu = mu a, array = r, unique = unique a\<rparr>))"

definition Clone :: "heap \<Rightarrow> ref SortedIntArray_of \<Rightarrow> error + (heap \<times> ref SortedIntArray_of)" where
  "Clone h a =
     (case make_in h (int (length (cells h (array a)))) of
        Inl e \<Rightarrow> Inl e
      | Inr (h', arr) \<Rightarrow>
          Inr (NewSortedIntArrayFrom (copy_in h' arr (array a)) arr [\<not> IsSafe (mu a)]))"

subsection \<open>Binary search, Search, Contains\<close>

text \<open>
  The loop of \<^verbatim>\<open>binSearch\<close>; \<open>mid\<close> and \<open>cmp\<close> carry the last probe
  (initially \<open>0\<close> and \<open>-2\<close>). Go's division truncates towards zero.
\<close>

definition go_div :: "int \<Rightarrow> int \<Rightarrow> int" where
  "go_div a b = sgn a * sgn b * (\<bar>a\<bar> div \<bar>b\<bar>)"

function binSearch_loop ::
  "int list \<Rightarrow> int \<Rightarrow> int \<Rightarrow> int \<Rightarrow> int \<Rightarrow> int \<Rightarrow> error + (int \<times> int)" where
  "binSearch_loop xs v lo hi mid cmp =
     (if lo \<le> hi then
        (let mid' = go_div (lo + hi) 2 in
         if 0 \<le> mid' \<and> mid' < int (length xs) then
           (let cmp' = compareFunc v (xs ! nat mid') in
            if cmp' < 0 then binSearch_loop xs v lo (mid' - 1) mid' cmp'
            else if cmp' > 0 then binSearch_loop xs v (mid' + 1) hi mid' cmp'
            else Inr (mid', cmp'))
         else Inl IndexOutOfRange)
      else Inr (mid, cmp))"
  by pat_completeness auto
termination
  by (relation "measure (\<lambda>(xs, v, lo, hi, mid, cmp). nat (hi - lo + 1))")
    (auto simp: go_div_def sgn_if)

declare binSearch_loop.simps [simp del]

text \<open>The flag \<open>lock\<close> only decides whether the read lock is taken.\<close>

definition binSearch :: "SortedIntArray \<Rightarrow> int \<Rightarrow> bool \<Rightarrow> error + (int \<times> int)" where
  "binSearch a v lock =
     (if length (array a) = 0 then Inr (- 1, - 2)
      else binSearch_loop (array a) v 0 (int (length (array a)) - 1) 0 (- 2))"

definition Search :: "SortedIntArray \<Rightarrow> int \<Rightarrow> error + int" where
  "Search a v =
     (case binSearch a v True of
        Inl e \<Rightarrow> Inl e
      | Inr (index, cmp) \<Rightarrow> Inr index)"

definition Contains :: "SortedIntArray \<Rightarrow> int \<Rightarrow> error + bool" where
  "Contains a v =
     (case Search a v of
        Inl e \<Rightarrow> Inl e
      | Inr index \<Rightarrow> Inr (index = 0))"

subsection \<open>Add\<close>

text \<open>One round of the loop over \<^verbatim>\<open>values\<close>, then the loop, then the method.\<close>

definition Add_value :: "SortedIntArray \<Rightarrow> int \<Rightarrow> error + SortedIntArray" where
  "Add_value a v =
     (case binSearch a v False of
        Inl e \<Rightarrow> Inl e
      | Inr (index, cmp) \<Rightarrow>
          if unique a \<and> cmp = 0 then Inr a
          else if index < 0 then Inr (a\<lparr>array := array a @ [v]\<rparr>)
          else
            (let index' = (if cmp > 0 then index + 1 else index) in
             case go_slice_from (array a) index' of
               Inl e \<Rightarrow> Inl e
             | Inr rear \<Rightarrow>
                 (case go_slice (array a) 0 index' of
                    Inl e \<Rightarrow> Inl e
                  | Inr front \<Rightarrow> Inr (a\<lparr>array := (front @ [v]) @ rear\<rparr>))))"

fun Add_loop :: "SortedIntArray \<Rightarrow> int list \<Rightarrow> error + SortedIntArray" where
  "Add_loop a [] = Inr a"
| "Add_loop a (v # vs) =
     (case Add_value a v of
        Inl e \<Rightarrow> Inl e
      | Inr a' \<Rightarrow> Add_loop a' vs)"

definition Add :: "SortedIntArray \<Rightarrow> int list \<Rightarrow> error + SortedIntArray" where
  "Add a vs = (if length vs = 0 then Inr a else Add_loop a vs)"

text \<open>A sequence of calls of \<^verbatim>\<open>Add\<close> on one structure, stopping at a panic.\<close>

fun Add_calls :: "SortedIntArray \<Rightarrow> int list list \<Rightarrow> error + SortedIntArray" where
  "Add_calls a [] = Inr a"
| "Add_calls a (vs # vss) =
     (case Add a vs of
        Inl e \<Rightarrow> Inl e
      | Inr a' \<Rightarrow> Add_calls a' vss)"

text \<open>
  Adjacent elements in order under the comparator: \<open>compareFunc x y \<le> 0\<close> says
  that \<open>x\<close> is less than or equal to \<open>y\<close>.
\<close>

fun ordered :: "int list \<Rightarrow> bool" where
  "ordered (x # y # zs) = (compareFunc x y \<le> 0 \<and> ordered (y # zs))"
| "ordered zs = True"

text \<open>No two elements at different positions compare equal.\<close>

fun no_equal_pair :: "int list \<Rightarrow> bool" where
  "no_equal_pair [] = True"
| "no_equal_pair (x # xs) = (list_all (\<lambda>y. compareFunc x y \<noteq> 0) xs \<and> no_equal_pair xs)"

text \<open>
  What a result \<open>(m, c)\<close> of the binary search says about a value \<open>v\<close>: \<open>m\<close> is an
  index, \<open>c\<close> compares \<open>v\<close> with the element there, and unless they are equal every
  element before the insertion index is smaller than \<open>v\<close> and every element from it on
  is greater.
\<close>

definition located :: "int list \<Rightarrow> int \<Rightarrow> int \<Rightarrow> int \<Rightarrow> bool" where
  "located xs v m c \<longleftrightarrow>
     0 \<le> m \<and> m < int (length xs) \<and> c = compareFunc v (xs ! nat m) \<and>
     (c \<noteq> 0 \<longrightarrow>
        (\<forall>i < nat (if c > 0 then m + 1 else m). xs ! i < v) \<and>
        (\<forall>i. nat (if c > 0 then m + 1 else m) \<le> i \<and> i < length xs \<longrightarrow> v < xs ! i))"

subsection \<open>PopLefts, PopRights, Range, SubSlice, Rand\<close>




definition SubSlice :: "SortedIntArray \<Rightarrow> int \<Rightarrow> int \<Rightarrow> error + int list option" where
  "SubSlice a offset sz =
     (let len = int (length (array a)) in
      if offset > len then Inr None
      else
        (let sz' = (if wrap64 (offset + sz) > len then wrap64 (len - offset) else sz) in
         if IsSafe (mu a) then
           (case go_make sz' of
              Inl e \<Rightarrow> Inl e
            | Inr s \<Rightarrow>
                (case go_slice_from (array a) offset of
                   Inl e \<Rightarrow> Inl e
                 | Inr src \<Rightarrow> Inr (Some (go_copy s src))))
         else
           (case go_slice_from (array a) offset of
              Inl e \<Rightarrow> Inl e
            | Inr s \<Rightarrow> Inr (Some s))))"

text \<open>
  Modelled from the spec: \<^verbatim>\<open>grand.Perm\<close> is not part of the source at hand; the
  specification calls its result "a random permutation of all indices". \<^verbatim>\<open>Rand\<close>
  takes the permutation that was drawn as an argument, and \<open>is_Perm n p\<close> says that
  \<open>p\<close> is a permutation of \<open>0, \<dots>, n - 1\<close>.
\<close>

definition is_Perm :: "nat \<Rightarrow> int list \<Rightarrow> bool" where
  "is_Perm n p = (sort p = map int [0..<n])"



subsection \<open>Unique and SetUnique\<close>

function Unique_loop :: "int \<Rightarrow> int list \<Rightarrow> error + int list" where
  "Unique_loop i xs =
     (if i = int (length xs) - 1 then Inr xs
      else if 0 \<le> i \<and> i + 1 < int (length xs) then
        (if compareFunc (xs ! nat i) (xs ! nat (i + 1)) = 0 then
           Unique_loop i (take (nat (i + 1)) xs @ drop (nat (i + 1 + 1)) xs)
         else Unique_loop (i + 1) xs)
      else Inl IndexOutOfRange)"
  by pat_completeness auto
termination
  by (relation "measure (\<lambda>(i, xs). nat (int (length xs) - i))") auto

declare Unique_loop.simps [simp del]

definition Unique :: "SortedIntArray \<Rightarrow> error + SortedIntArray" where
  "Unique a =
     (case Unique_loop 0 (array a) of
        Inl e \<Rightarrow> Inl e
      | Inr xs \<Rightarrow> Inr (a\<lparr>array := xs\<rparr>))"

definition SetUnique :: "SortedIntArray \<Rightarrow> bool \<Rightarrow> error + SortedIntArray" where
  "SetUnique a u =
     (let oldUnique = unique a;
          a' = a\<lparr>unique := u\<rparr> in
      if u \<and> oldUnique \<noteq> u then Unique a' else Inr a')"

subsection \<open>Merge\<close>

text \<open>
  \<^verbatim>\<open>Merge\<close> takes a second pointer, which may be the receiver itself, so it works
  on a store of structures. \<open>Merge_locks\<close> lists the calls on the mutexes in the order
  they happen; the deferred releases run last, in reverse order.
\<close>

type_synonym addr = nat

type_synonym store = "addr \<Rightarrow> SortedIntArray option"

datatype lock_call = Lock addr | Unlock addr | RLock addr | RUnlock addr

definition Merge :: "store \<Rightarrow> addr \<Rightarrow> addr \<Rightarrow> error + store" where
  "Merge s a other =
     (case s a of
        None \<Rightarrow> Inl NilDereference
      | Some sa \<Rightarrow>
          (case s other of
             None \<Rightarrow> Inl NilDereference
           | Some so \<Rightarrow> Inr (s(a \<mapsto> sa\<lparr>array := sort (array sa @ array so)\<rparr>))))"

definition Merge_locks :: "addr \<Rightarrow> addr \<Rightarrow> lock_call list" where
  "Merge_locks a other =
     [Lock a] @ (if a \<noteq> other then [RLock other] else [])
       @ (if a \<noteq> other then [RUnlock other] else []) @ [Unlock a]"

subsection \<open>Chunk\<close>

text \<open>
  The number of chunks is \<^verbatim>\<open>int(math.Ceil(float64(length) / float64(size)))\<close>. For
  \<open>size \<ge> 1\<close> and a length below \<open>2 ^ 53\<close> the conversions and the rounded quotient
  give the exact ceiling, which \<open>ceil_div\<close> computes on integers.
\<close>

definition ceil_div :: "int \<Rightarrow> int \<Rightarrow> int" where
  "ceil_div n d = - ((- n) div d)"

text \<open>The elements of a slice that may be \<^verbatim>\<open>nil\<close>; a \<^verbatim>\<open>nil\<close> slice has none.\<close>

definition elems :: "'a list option \<Rightarrow> 'a list" where
  "elems n = (case n of None \<Rightarrow> [] | Some cs \<Rightarrow> cs)"

text \<open>\<^verbatim>\<open>append(n, c)\<close> on a slice of slices that starts out \<^verbatim>\<open>nil\<close>.\<close>

definition go_append :: "'a list option \<Rightarrow> 'a \<Rightarrow> 'a list option" where
  "go_append n c = (case n of None \<Rightarrow> Some [c] | Some cs \<Rightarrow> Some (cs @ [c]))"

function Chunk_loop ::
  "int list \<Rightarrow> int \<Rightarrow> int \<Rightarrow> int \<Rightarrow> int list list option \<Rightarrow> error + int list list option" where
  "Chunk_loop xs sz i chunks n =
     (if chunks > 0 then
        (let end = wrap64 ((i + 1) * sz);
             end' = (if end > int (length xs) then int (length xs) else end) in
         case go_slice xs (wrap64 (i * sz)) end' of
           Inl e \<Rightarrow> Inl e
         | Inr c \<Rightarrow> Chunk_loop xs sz (i + 1) (chunks - 1) (go_append n c))
      else Inr n)"
  by pat_completeness auto
termination
  by (relation "measure (\<lambda>(xs, sz, i, chunks, n). nat chunks)") auto

declare Chunk_loop.simps [simp del]

definition Chunk :: "SortedIntArray \<Rightarrow> int \<Rightarrow> error + int list list option" where
  "Chunk a sz =
     (if sz < 1 then Inr None
      else Chunk_loop (array a) sz 0 (ceil_div (int (length (array a))) sz) None)"

section \<open>The comparator and the runtime helpers\<close>

lemma go_div_nonneg: "0 \<le> a \<Longrightarrow> go_div a 2 = a div 2"
  by (auto simp: go_div_def sgn_if)

lemma compareFunc_less: "compareFunc v x < 0 \<longleftrightarrow> v < x"
  by (simp add: compareFunc_def)

lemma compareFunc_greater: "0 < compareFunc v x \<longleftrightarrow> x < v"
  by (simp add: compareFunc_def)

lemma compareFunc_eq: "compareFunc v x = 0 \<longleftrightarrow> v = x"
  by (simp add: compareFunc_def)

lemma compareFunc_le: "compareFunc v x \<le> 0 \<longleftrightarrow> v \<le> x"
  by (simp add: compareFunc_def)

lemma go_slice_prefix:
  "0 \<le> k \<Longrightarrow> k \<le> int (length xs) \<Longrightarrow> go_slice xs 0 k = Inr (take (nat k) xs)"
  by (simp add: go_slice_def)

lemma go_slice_from_suffix:
  "0 \<le> k \<Longrightarrow> k \<le> int (length xs) \<Longrightarrow> go_slice_from xs k = Inr (drop (nat k) xs)"
  by (simp add: go_slice_from_def go_slice_def)

lemma wrap64_id: "- (2 ^ 63) \<le> x \<Longrightarrow> x < 2 ^ 63 \<Longrightarrow> wrap64 x = x"
  by (simp add: wrap64_def)


lemma ordered_iff_sorted: "ordered xs \<longleftrightarrow> sorted xs"
  by (induction xs rule: ordered.induct) (fastforce simp: compareFunc_le)+

lemma no_equal_pair_iff_distinct: "no_equal_pair xs \<longleftrightarrow> distinct xs"
  by (induction xs) (auto simp: list_all_iff compareFunc_eq)

section \<open>Search and Contains\<close>

text \<open>
  C1. \<^verbatim>\<open>Search\<close> is documented to return \<open>-1\<close> when the value does not exist.
  It returns the index that \<^verbatim>\<open>binSearch\<close> probed last and drops the comparison
  result: on the contents \<open>[3, 3, 5, 8]\<close> the absent value \<open>9\<close> yields index \<open>3\<close>,
  and on \<open>[1]\<close> the absent value \<open>2\<close> yields index \<open>0\<close>. Only the empty structure
  yields \<open>-1\<close>.
\<close>

theorem Search_absent_returns_last_probe:
  "Search \<lparr>mu = New [], array = [3, 3, 5, 8], unique = False\<rparr> 9 = Inr 3
   \<and> Search \<lparr>mu = New [], array = [1], unique = False\<rparr> 2 = Inr 0
   \<and> Search \<lparr>mu = New [], array = [], unique = False\<rparr> 2 = Inr (- 1)"
  by (simp add: Search_def binSearch_def binSearch_loop.simps go_div_def compareFunc_def)

text \<open>
  C2. \<^verbatim>\<open>Contains\<close> compares the index from \<^verbatim>\<open>Search\<close> with \<open>0\<close>. On the
  contents \<open>[1, 2, 3]\<close> the value \<open>3\<close> is found at index \<open>2\<close>, which is not the
  sentinel, and \<^verbatim>\<open>Contains\<close> answers false.
\<close>

theorem Contains_false_for_found_index:
  "Search \<lparr>mu = New [], array = [1, 2, 3], unique = False\<rparr> 3 = Inr 2
   \<and> Contains \<lparr>mu = New [], array = [1, 2, 3], unique = False\<rparr> 3 = Inr False"
  by (simp add: Contains_def Search_def binSearch_def binSearch_loop.simps go_div_def
      compareFunc_def)

section \<open>Binary search on a sorted array\<close>

lemma binSearch_loop_located:
  assumes "sorted xs"
    and "0 \<le> lo" and "hi < int (length xs)" and "lo \<le> hi + 1"
    and "\<forall>i < nat lo. xs ! i < v"
    and "\<forall>i. nat (hi + 1) \<le> i \<and> i < length xs \<longrightarrow> v < xs ! i"
    and "hi < lo \<Longrightarrow> 0 \<le> mid \<and> mid < int (length xs) \<and> cmp = compareFunc v (xs ! nat mid)
           \<and> (0 < cmp \<and> mid + 1 = lo \<or> cmp < 0 \<and> mid = lo)"
  shows "\<exists>m c. binSearch_loop xs v lo hi mid cmp = Inr (m, c) \<and> located xs v m c"
  using assms
proof (induction xs v lo hi mid cmp rule: binSearch_loop.induct)
  case (1 xs v lo hi mid cmp)
  show ?case
  proof (cases "lo \<le> hi")
    case False
    with "1.prems" have ex: "0 \<le> mid" "mid < int (length xs)" "cmp = compareFunc v (xs ! nat mid)"
      "0 < cmp \<and> mid + 1 = lo \<or> cmp < 0 \<and> mid = lo" and hl: "lo = hi + 1"
      by auto
    have "located xs v mid cmp"
      unfolding located_def using ex hl "1.prems"(5,6) by auto
    with False show ?thesis
      by (subst binSearch_loop.simps) simp
  next
    case True
    define m where "m = go_div (lo + hi) 2"
    define c where "c = compareFunc v (xs ! nat m)"
    from True "1.prems"(2) have m_div: "m = (lo + hi) div 2"
      by (simp add: m_def go_div_nonneg)
    with True "1.prems"(2,3) have m_bounds: "lo \<le> m" "m \<le> hi" "0 \<le> m" "m < int (length xs)"
      by auto
    consider (less) "c < 0" | (greater) "0 < c" | (equal) "c = 0"
      by linarith
    then show ?thesis
    proof cases
      case less
      then have vlt: "v < xs ! nat m"
        by (simp add: c_def compareFunc_less)
      have above: "\<forall>i. nat (m - 1 + 1) \<le> i \<and> i < length xs \<longrightarrow> v < xs ! i"
      proof (intro allI impI)
        fix i assume "nat (m - 1 + 1) \<le> i \<and> i < length xs"
        then have "xs ! nat m \<le> xs ! i"
          using "1.prems"(1) by (simp add: sorted_nth_mono)
        with vlt show "v < xs ! i" by simp
      qed
      have "\<exists>m' c'. binSearch_loop xs v lo (m - 1) m c = Inr (m', c') \<and> located xs v m' c'"
        using "1.IH"(1)[OF True m_def _ c_def less] m_bounds "1.prems"(1,2,5) above less c_def
        by auto
      with True m_bounds less show ?thesis
        by (subst binSearch_loop.simps) (simp add: Let_def m_def[symmetric] c_def[symmetric])
    next
      case greater
      then have vgt: "xs ! nat m < v"
        by (simp add: c_def compareFunc_greater)
      have below: "\<forall>i < nat (m + 1). xs ! i < v"
      proof (intro allI impI)
        fix i assume "i < nat (m + 1)"
        then have "xs ! i \<le> xs ! nat m"
          using "1.prems"(1) m_bounds by (simp add: sorted_nth_mono)
        with vgt show "xs ! i < v" by simp
      qed
      have "\<exists>m' c'. binSearch_loop xs v (m + 1) hi m c = Inr (m', c') \<and> located xs v m' c'"
        using "1.IH"(2)[OF True m_def _ c_def _ greater] m_bounds "1.prems"(1,3,6) below greater c_def
        by auto
      with True m_bounds greater show ?thesis
        by (subst binSearch_loop.simps) (simp add: Let_def m_def[symmetric] c_def[symmetric])
    next
      case equal
      have "located xs v m c"
        unfolding located_def using m_bounds equal c_def by simp
      with True m_bounds equal show ?thesis
        by (subst binSearch_loop.simps) (simp add: Let_def m_def[symmetric] c_def[symmetric])
    qed
  qed
qed

lemma sorted_insert_at:
  assumes "sorted xs" and "k \<le> length xs"
    and "\<forall>i<k. xs ! i \<le> v"
    and "\<forall>i. k \<le> i \<and> i < length xs \<longrightarrow> v \<le> xs ! i"
  shows "sorted (take k xs @ v # drop k xs)"
proof -
  have "\<forall>x \<in> set (take k xs). x \<le> v"
    using assms(2,3) by (auto simp: in_set_conv_nth)
  moreover have "\<forall>y \<in> set (drop k xs). v \<le> y"
    using assms(2,4) by (auto simp: in_set_conv_nth)
  moreover have "sorted (take k xs)" "sorted (drop k xs)"
    using assms(1) by (simp_all add: sorted_wrt_take sorted_wrt_drop)
  ultimately show ?thesis
    by (fastforce simp: sorted_append)
qed

lemma insert_at_eq_insort:
  assumes "sorted xs" and "k \<le> length xs"
    and "\<forall>i<k. xs ! i \<le> v"
    and "\<forall>i. k \<le> i \<and> i < length xs \<longrightarrow> v \<le> xs ! i"
  shows "take k xs @ v # drop k xs = insort v xs"
proof -
  have "mset (take k xs) + mset (drop k xs) = mset xs"
    by (metis append_take_drop_id mset_append)
  then have "mset (take k xs @ v # drop k xs) = mset (insort v xs)"
    by simp
  moreover have "sorted (insort v xs)"
    using assms(1) by (simp add: sorted_insort)
  ultimately show ?thesis
    using sorted_insert_at[OF assms] by (metis properties_for_sort)
qed

lemma located_insertion:
  assumes "sorted xs" and "located xs v m c"
  shows "nat (if c > 0 then m + 1 else m) \<le> length xs"
    and "take (nat (if c > 0 then m + 1 else m)) xs @ v # drop (nat (if c > 0 then m + 1 else m)) xs
         = insort v xs"
    and "c = 0 \<longleftrightarrow> v \<in> set xs"
proof -
  let ?k = "nat (if c > 0 then m + 1 else m)"
  from assms(2) have m: "0 \<le> m" "m < int (length xs)" and c: "c = compareFunc v (xs ! nat m)"
    by (simp_all add: located_def)
  show k: "?k \<le> length xs"
    using m by auto
  have bounds: "(\<forall>i<?k. xs ! i \<le> v) \<and> (\<forall>i. ?k \<le> i \<and> i < length xs \<longrightarrow> v \<le> xs ! i)"
  proof (cases "c = 0")
    case True
    then have eq: "xs ! nat m = v"
      using c by (simp add: compareFunc_eq)
    have "\<forall>i<nat m. xs ! i \<le> xs ! nat m"
      using assms(1) m by (simp add: sorted_nth_mono)
    moreover have "\<forall>i. nat m \<le> i \<and> i < length xs \<longrightarrow> xs ! nat m \<le> xs ! i"
      using assms(1) by (simp add: sorted_nth_mono)
    ultimately show ?thesis
      using True eq by simp
  next
    case False
    with assms(2) show ?thesis
      unfolding located_def by (meson less_imp_le)
  qed
  then show "take ?k xs @ v # drop ?k xs = insort v xs"
    using insert_at_eq_insort[OF assms(1) k] by blast
  show "c = 0 \<longleftrightarrow> v \<in> set xs"
  proof
    assume "c = 0"
    then have "xs ! nat m = v"
      using c by (simp add: compareFunc_eq)
    then show "v \<in> set xs"
      using m by (metis nat_less_iff nth_mem)
  next
    assume "v \<in> set xs"
    then obtain i where i: "i < length xs" "xs ! i = v"
      by (auto simp: in_set_conv_nth)
    show "c = 0"
    proof (rule ccontr)
      assume "c \<noteq> 0"
      with assms(2) have "(\<forall>i<?k. xs ! i < v) \<and> (\<forall>i. ?k \<le> i \<and> i < length xs \<longrightarrow> v < xs ! i)"
        unfolding located_def by blast
      with i show False
        by (metis less_irrefl not_le)
    qed
  qed
qed

lemma binSearch_located:
  assumes "sorted (array a)" and "array a \<noteq> []"
  shows "\<exists>m c. binSearch a v lock = Inr (m, c) \<and> located (array a) v m c"
proof -
  have "\<exists>m c. binSearch_loop (array a) v 0 (int (length (array a)) - 1) 0 (- 2) = Inr (m, c)
          \<and> located (array a) v m c"
    using assms by (intro binSearch_loop_located) auto
  with assms(2) show ?thesis
    by (simp add: binSearch_def)
qed

text \<open>
  On a sorted array \<^verbatim>\<open>Search\<close> does find every value that is present, at an index
  that holds it; and on a sorted array that is not empty it never returns the sentinel,
  whether or not the value is present.
\<close>

lemma Search_present:
  assumes "sorted (array a)" and "v \<in> set (array a)"
  shows "\<exists>i. Search a v = Inr i \<and> 0 \<le> i \<and> i < int (length (array a)) \<and> array a ! nat i = v"
proof -
  from assms(2) have ne: "array a \<noteq> []"
    by auto
  from binSearch_located[OF assms(1) ne, of v True]
  obtain m c where bs: "binSearch a v True = Inr (m, c)" and loc: "located (array a) v m c"
    by blast
  from located_insertion(3)[OF assms(1) loc] assms(2) have "c = 0"
    by simp
  with loc have "0 \<le> m" "m < int (length (array a))" "array a ! nat m = v"
    by (simp_all add: located_def compareFunc_eq)
  with bs show ?thesis
    by (simp add: Search_def)
qed

lemma Search_never_sentinel:
  assumes "sorted (array a)" and "array a \<noteq> []"
  shows "\<exists>i. Search a v = Inr i \<and> 0 \<le> i"
proof -
  from binSearch_located[OF assms, of v True]
  obtain m c where "binSearch a v True = Inr (m, c)" "located (array a) v m c"
    by blast
  then show ?thesis
    by (simp add: Search_def located_def)
qed

lemma Add_value_sorted:
  assumes "sorted (array a)"
  shows "Add_value a v =
           Inr (if unique a \<and> v \<in> set (array a) then a else a\<lparr>array := insort v (array a)\<rparr>)"
proof (cases "array a = []")
  case True
  then show ?thesis
    by (simp add: Add_value_def binSearch_def)
next
  case False
  from binSearch_located[OF assms False]
  obtain m c where bs: "binSearch a v False = Inr (m, c)" and loc: "located (array a) v m c"
    by blast
  let ?k = "if c > 0 then m + 1 else m"
  from loc have m: "0 \<le> m" "m < int (length (array a))"
    by (simp_all add: located_def)
  note ins = located_insertion[OF assms loc]
  show ?thesis
  proof (cases "unique a \<and> c = 0")
    case True
    with bs ins(3) show ?thesis
      by (simp add: Add_value_def)
  next
    case False
    have k: "0 \<le> ?k" "?k \<le> int (length (array a))"
      using m by auto
    have "Add_value a v = Inr (a\<lparr>array := (take (nat ?k) (array a) @ [v]) @ drop (nat ?k) (array a)\<rparr>)"
      using bs False m go_slice_prefix[OF k] go_slice_from_suffix[OF k]
      by (auto simp add: Add_value_def Let_def simp del: append_assoc)
    also have "(take (nat ?k) (array a) @ [v]) @ drop (nat ?k) (array a) = insort v (array a)"
      using ins(2) by simp
    finally show ?thesis
      using False ins(3) by auto
  qed
qed

lemma Add_loop_sorted:
  assumes "sorted (array a)"
  shows "\<exists>a'. Add_loop a vs = Inr a' \<and> sorted (array a') \<and> unique a' = unique a \<and> mu a' = mu a
           \<and> set (array a') = set (array a) \<union> set vs
           \<and> (unique a \<and> distinct (array a) \<longrightarrow> distinct (array a'))
           \<and> (set vs \<subseteq> set (array a) \<and> unique a \<longrightarrow> a' = a)
           \<and> (\<not> unique a \<longrightarrow> mset (array a') = mset (array a) + mset vs)"
  using assms
proof (induction vs arbitrary: a)
  case Nil
  then show ?case by simp
next
  case (Cons v vs)
  let ?b = "if unique a \<and> v \<in> set (array a) then a else a\<lparr>array := insort v (array a)\<rparr>"
  have step: "Add_value a v = Inr ?b"
    using Cons.prems by (rule Add_value_sorted)
  have b: "sorted (array ?b)" "unique ?b = unique a" "mu ?b = mu a"
    "set (array ?b) = insert v (set (array a))"
    "unique a \<and> distinct (array a) \<longrightarrow> distinct (array ?b)"
    "\<not> unique a \<longrightarrow> mset (array ?b) = add_mset v (mset (array a))"
    using Cons.prems by (auto simp: sorted_insort set_insort_key distinct_insort)
  from Cons.IH[OF b(1)] obtain a' where a': "Add_loop ?b vs = Inr a'" "sorted (array a')"
    "unique a' = unique ?b" "mu a' = mu ?b" "set (array a') = set (array ?b) \<union> set vs"
    "unique ?b \<and> distinct (array ?b) \<longrightarrow> distinct (array a')"
    "set vs \<subseteq> set (array ?b) \<and> unique ?b \<longrightarrow> a' = ?b"
    "\<not> unique ?b \<longrightarrow> mset (array a') = mset (array ?b) + mset vs"
    by blast
  have "Add_loop a (v # vs) = Inr a'"
    using step a'(1) by simp
  moreover have "set (array a') = set (array a) \<union> set (v # vs)"
    using a'(5) b(4) by auto
  moreover have "unique a \<and> distinct (array a) \<longrightarrow> distinct (array a')"
    using a'(6) b(2,5) by auto
  moreover have "set (v # vs) \<subseteq> set (array a) \<and> unique a \<longrightarrow> a' = a"
    using a'(7) by (auto split: if_splits)
  moreover have "\<not> unique a \<longrightarrow> mset (array a') = mset (array a) + mset (v # vs)"
    using a'(8) b(2,6) by auto
  ultimately show ?case
    using a'(2,3,4) b(2,3) by (metis (no_types, lifting))
qed

section \<open>Add keeps the array sorted, and duplicate-free in unique mode\<close>

lemma Add_sorted:
  assumes "sorted (array a)"
  shows "\<exists>a'. Add a vs = Inr a' \<and> sorted (array a') \<and> unique a' = unique a \<and> mu a' = mu a
           \<and> set (array a') = set (array a) \<union> set vs
           \<and> (unique a \<and> distinct (array a) \<longrightarrow> distinct (array a'))
           \<and> (set vs \<subseteq> set (array a) \<and> unique a \<longrightarrow> a' = a)
           \<and> (\<not> unique a \<longrightarrow> mset (array a') = mset (array a) + mset vs)"
proof (cases "vs = []")
  case True
  with assms show ?thesis
    by (simp add: Add_def)
next
  case False
  with Add_loop_sorted[OF assms, of vs] show ?thesis
    by (simp add: Add_def)
qed

lemma Add_calls_sorted:
  assumes "sorted (array a)"
  shows "\<exists>a'. Add_calls a vss = Inr a' \<and> sorted (array a') \<and> unique a' = unique a
           \<and> mu a' = mu a
           \<and> (unique a \<and> distinct (array a) \<longrightarrow> distinct (array a'))"
  using assms
proof (induction vss arbitrary: a)
  case Nil
  then show ?case by simp
next
  case (Cons vs vss)
  from Add_sorted[OF Cons.prems, of vs] obtain b where b: "Add a vs = Inr b" "sorted (array b)"
    "unique b = unique a" "mu b = mu a" "unique a \<and> distinct (array a) \<longrightarrow> distinct (array b)"
    by blast
  from Cons.IH[OF b(2)] obtain a' where a': "Add_calls b vss = Inr a'" "sorted (array a')"
    "unique a' = unique b" "mu a' = mu b" "unique b \<and> distinct (array b) \<longrightarrow> distinct (array a')"
    by blast
  have "Add_calls a (vs # vss) = Inr a'"
    using b(1) a'(1) by simp
  then show ?case
    using a' b by auto
qed

text \<open>
  C3. Sortedness under \<^verbatim>\<open>Add\<close>. Starting from any structure whose elements are
  in order, every call in a sequence of calls of \<^verbatim>\<open>Add\<close> returns without a panic,
  and after each of them (after the first \<open>k\<close> calls, for every \<open>k\<close>) each element is
  less than or equal to its successor under the comparator.
\<close>

theorem Add_keeps_ordered:
  assumes "ordered (array a)"
  shows "\<exists>a'. Add_calls a (take k vss) = Inr a' \<and> ordered (array a')"
  using Add_calls_sorted[of a "take k vss"] assms by (auto simp: ordered_iff_sorted)

theorem Add_keeps_ordered_witness:
  "ordered (array \<lparr>mu = New [], array = [1, 5], unique = False\<rparr>)
   \<and> (\<exists>a'. Add_calls \<lparr>mu = New [], array = [1, 5], unique = False\<rparr> (take 2 [[3], [0, 9, 3], [4]]) = Inr a'
         \<and> ordered (array a'))"
  using Add_keeps_ordered[of "\<lparr>mu = New [], array = [1, 5], unique = False\<rparr>" 2 "[[3], [0, 9, 3], [4]]"]
  by (simp add: compareFunc_def)

text \<open>
  C4. Uniqueness under \<^verbatim>\<open>Add\<close>. With the unique flag set, starting from a structure
  whose elements are in order and pairwise different, after each call in a sequence of
  calls of \<^verbatim>\<open>Add\<close> the flag is still set, the elements are still in order and no
  two of them compare equal; and adding a value that compares equal to an element
  already present leaves the length unchanged.
\<close>

theorem Add_unique_keeps_no_equal_pair:
  assumes "unique a" and "ordered (array a)" and "no_equal_pair (array a)"
  shows "(\<exists>a'. Add_calls a (take k vss) = Inr a' \<and> unique a' \<and> ordered (array a')
            \<and> no_equal_pair (array a'))
         \<and> ((\<exists>x \<in> set (array a). compareFunc v x = 0) \<longrightarrow>
              (\<exists>a'. Add a [v] = Inr a' \<and> length (array a') = length (array a)))"
proof -
  have s: "sorted (array a)" and d: "distinct (array a)"
    using assms(2,3) by (simp_all add: ordered_iff_sorted no_equal_pair_iff_distinct)
  have "\<exists>a'. Add_calls a (take k vss) = Inr a' \<and> unique a' \<and> ordered (array a')
            \<and> no_equal_pair (array a')"
    using Add_calls_sorted[OF s, of "take k vss"] assms(1) d
    by (auto simp: ordered_iff_sorted no_equal_pair_iff_distinct)
  moreover have "\<exists>a'. Add a [v] = Inr a' \<and> length (array a') = length (array a)"
    if "\<exists>x \<in> set (array a). compareFunc v x = 0"
  proof -
    from that have "set [v] \<subseteq> set (array a)"
      by (auto simp: compareFunc_eq)
    with Add_sorted[OF s, of "[v]"] assms(1) show ?thesis
      by auto
  qed
  ultimately show ?thesis
    by blast
qed

theorem Add_unique_keeps_no_equal_pair_witness:
  "unique (\<lparr>mu = New [], array = [3, 5], unique = True\<rparr> :: SortedIntArray)
   \<and> ordered (array \<lparr>mu = New [], array = [3, 5], unique = True\<rparr>)
   \<and> no_equal_pair (array \<lparr>mu = New [], array = [3, 5], unique = True\<rparr>)
   \<and> (\<exists>a'. Add_calls \<lparr>mu = New [], array = [3, 5], unique = True\<rparr> (take 2 [[5, 3], [8, 3, 8]]) = Inr a'
         \<and> unique a' \<and> ordered (array a') \<and> no_equal_pair (array a'))
   \<and> (\<exists>x \<in> set (array \<lparr>mu = New [], array = [3, 5], unique = True\<rparr>). compareFunc 5 x = 0)
   \<and> (\<exists>a'. Add \<lparr>mu = New [], array = [3, 5], unique = True\<rparr> [5] = Inr a'
         \<and> length (array a')
             = length (array (\<lparr>mu = New [], array = [3, 5], unique = True\<rparr> :: SortedIntArray)))"
  using Add_unique_keeps_no_equal_pair[of "\<lparr>mu = New [], array = [3, 5], unique = True\<rparr>" 2
      "[[5, 3], [8, 3, 8]]" 5]
  by (simp add: compareFunc_def)

text \<open>The two calls of the example, evaluated.\<close>

lemma Add_calls_scenario:
  "Add_calls \<lparr>mu = New [], array = [3, 5], unique = True\<rparr> [[5, 3], [8, 3, 8]]
     = Inr \<lparr>mu = New [], array = [3, 5, 8], unique = True\<rparr>"
  by (simp add: Add_def Add_value_def binSearch_def binSearch_loop.simps go_div_def compareFunc_def
      go_slice_def go_slice_from_def)

section \<open>Unique and SetUnique\<close>

text \<open>
  C10. On a structure with no elements \<^verbatim>\<open>Unique\<close> panics with an index out of
  range: the loop's exit test compares \<open>0\<close> with \<open>-1\<close> and the next statement reads
  elements \<open>0\<close> and \<open>1\<close>. \<^verbatim>\<open>SetUnique(true)\<close> on such a structure whose flag was
  false runs \<^verbatim>\<open>Unique\<close> and panics with it.
\<close>

theorem Unique_empty_fails:
  "Unique (a\<lparr>array := []\<rparr>) = Inl IndexOutOfRange
   \<and> SetUnique (a\<lparr>array := [], unique := False\<rparr>) True = Inl IndexOutOfRange"
  by (simp add: SetUnique_def Unique_def Unique_loop.simps)

text \<open>So the flag cannot be set on a structure fresh from the constructor.\<close>

lemma NewSortedIntArray_SetUnique_fails:
  "SetUnique (NewSortedIntArray unsafe) True = Inl IndexOutOfRange"
  by (simp add: NewSortedIntArray_def NewSortedIntArraySize_def SetUnique_def Unique_def
      Unique_loop.simps)

text \<open>
  The empty array is the only one on which \<^verbatim>\<open>Unique\<close> panics: started inside the
  array, the loop drops each element equal to its predecessor and returns.
\<close>

lemma Unique_loop_remdups_adj:
  assumes "0 \<le> i" and "i < int (length xs)"
  shows "Unique_loop i xs = Inr (take (nat i) xs @ remdups_adj (drop (nat i) xs))"
  using assms
proof (induction i xs rule: Unique_loop.induct)
  case (1 i xs)
  show ?case
  proof (cases "i = int (length xs) - 1")
    case True
    then have "Suc (nat i) = length xs"
      using "1.prems" by linarith
    then have "drop (nat i) xs = [xs ! nat i]"
      using Cons_nth_drop_Suc[of "nat i" xs] by simp
    then have "take (nat i) xs @ remdups_adj (drop (nat i) xs) = xs"
      by (metis append_take_drop_id remdups_adj.simps(2))
    with True show ?thesis
      by (subst Unique_loop.simps) simp
  next
    case False
    with "1.prems" have lt: "i + 1 < int (length xs)"
      by simp
    let ?n = "nat i"
    have n: "Suc ?n < length xs" "nat (i + 1) = Suc ?n" "nat (i + 1 + 1) = Suc (Suc ?n)"
      using lt "1.prems"(1) by auto
    have n': "?n < length xs"
      using n(1) by simp
    have dr: "drop ?n xs = xs ! ?n # xs ! Suc ?n # drop (Suc (Suc ?n)) xs"
      using n(1) n' by (simp add: Cons_nth_drop_Suc)
    show ?thesis
    proof (cases "compareFunc (xs ! nat i) (xs ! nat (i + 1)) = 0")
      case True
      then have eq: "xs ! ?n = xs ! Suc ?n"
        by (simp add: compareFunc_eq n(2))
      let ?ys = "take (nat (i + 1)) xs @ drop (nat (i + 1 + 1)) xs"
      have len: "i < int (length ?ys)"
        using lt "1.prems"(1) by auto
      have tk: "take ?n ?ys = take ?n xs"
        using n by (simp add: min_def)
      have dr': "drop ?n ?ys = xs ! ?n # drop (Suc (Suc ?n)) xs"
        using n n' by (simp add: min_def take_Suc_conv_app_nth)
      have "Unique_loop i xs = Unique_loop i ?ys"
        using False lt "1.prems"(1) True by (subst Unique_loop.simps) simp
      also have "\<dots> = Inr (take ?n ?ys @ remdups_adj (drop ?n ?ys))"
        using "1.IH"(1)[OF False _ True "1.prems"(1) len] lt "1.prems"(1) by simp
      also have "take ?n ?ys @ remdups_adj (drop ?n ?ys) = take ?n xs @ remdups_adj (drop ?n xs)"
        by (simp only: tk dr' dr) (simp add: eq)
      finally show ?thesis .
    next
      case neq: False
      then have ne: "xs ! ?n \<noteq> xs ! Suc ?n"
        by (simp add: compareFunc_eq n(2))
      have "Unique_loop i xs = Unique_loop (i + 1) xs"
        using False lt "1.prems"(1) neq by (subst Unique_loop.simps) simp
      also have "\<dots> = Inr (take (Suc ?n) xs @ remdups_adj (drop (Suc ?n) xs))"
        using "1.IH"(2)[OF False _ neq] lt "1.prems"(1) n(2) by simp
      also have "take (Suc ?n) xs @ remdups_adj (drop (Suc ?n) xs)
                 = take ?n xs @ remdups_adj (drop ?n xs)"
      proof -
        have dS: "drop (Suc ?n) xs = xs ! Suc ?n # drop (Suc (Suc ?n)) xs"
          using n(1) by (simp add: Cons_nth_drop_Suc)
        have tS: "take (Suc ?n) xs = take ?n xs @ [xs ! ?n]"
          using n' by (simp add: take_Suc_conv_app_nth)
        show ?thesis
          by (simp only: tS dS dr) (simp add: ne)
      qed
      finally show ?thesis .
    qed
  qed
qed

lemma Unique_nonempty:
  "array a \<noteq> [] \<Longrightarrow> Unique a = Inr (a\<lparr>array := remdups_adj (array a)\<rparr>)"
  using Unique_loop_remdups_adj[of 0 "array a"] by (simp add: Unique_def)

section \<open>SubSlice\<close>

text \<open>
  C8. \<^verbatim>\<open>SubSlice\<close> clamps \<open>size\<close> and then uses it in the copying branch only. In
  unsafe mode it returns \<^verbatim>\<open>a.array[offset:]\<close>, all elements from \<open>offset\<close> on: on
  the contents \<open>[1, 2, 3]\<close>, \<^verbatim>\<open>SubSlice(0, 1)\<close> returns \<open>[1, 2, 3]\<close> in unsafe
  mode and \<open>[1]\<close> in safe mode.
\<close>

theorem SubSlice_unsafe_ignores_size:
  "SubSlice \<lparr>mu = New [True], array = [1, 2, 3], unique = False\<rparr> 0 1 = Inr (Some [1, 2, 3])
   \<and> SubSlice \<lparr>mu = New [], array = [1, 2, 3], unique = False\<rparr> 0 1 = Inr (Some [1])"
  by (simp add: SubSlice_def New_def IsSafe_def wrap64_def go_make_def go_slice_from_def
      go_slice_def go_copy_def)




section \<open>PopLefts, PopRights, Range, SubSlice and Rand on arguments out of range\<close>










lemma is_Perm_example: "is_Perm 3 [2, 0, 1]"
  by (simp add: is_Perm_def upt_rec)


section \<open>Clone\<close>

text \<open>
  C6, as stated: the clone is in unsafe mode exactly when the source is in safe mode.
  \<^verbatim>\<open>Clone\<close> passes \<^verbatim>\<open>!a.mu.IsSafe()\<close> as the constructor's parameter \<^verbatim>\<open>unsafe\<close>,
  so the clone of a safe-mode structure is built with \<^verbatim>\<open>unsafe = false\<close> and is in
  safe mode as well.
\<close>

theorem Clone_of_safe_is_safe:
  "Clone \<lparr>cells = (\<lambda>r. if r = 0 then [1, 2] else []), top = 1\<rparr>
         \<lparr>mu = New [], array = 0, unique = True\<rparr>
     = Inr (\<lparr>cells = (\<lambda>r. if r = 0 then [1, 2] else if r = 1 then [1, 2] else []), top = 2\<rparr>,
            \<lparr>mu = \<lparr>safe = True\<rparr>, array = 1, unique = False\<rparr>)
   \<and> IsSafe (mu \<lparr>mu = New [], array = 0::ref, unique = True\<rparr>)
   \<and> IsSafe (mu \<lparr>mu = \<lparr>safe = True\<rparr>, array = 1::ref, unique = False\<rparr>)"
  by (auto simp add: Clone_def make_in_def copy_in_def sort_Ints_in_def NewSortedIntArrayFrom_def
      NewSortedIntArraySize_def New_def IsSafe_def go_make_def go_copy_def fun_eq_iff)

text \<open>
  What \<^verbatim>\<open>Clone\<close> returns for a source whose backing array is allocated: the heap
  with one more array, holding the source's elements sorted, and a structure on it.
\<close>

lemma Clone_result:
  assumes "array a < top h"
  shows "Clone h a =
           Inr (h\<lparr>cells := (cells h)(top h := sort (cells h (array a))), top := Suc (top h)\<rparr>,
                \<lparr>mu = New [\<not> IsSafe (mu a)], array = top h, unique = False\<rparr>)"
proof -
  let ?src = "cells h (array a)"
  let ?h1 = "h\<lparr>cells := (cells h)(top h := replicate (length ?src) 0), top := Suc (top h)\<rparr>"
  have mk: "make_in h (int (length ?src)) = Inr (?h1, top h)"
    by (simp add: make_in_def go_make_def)
  have ne: "array a \<noteq> top h"
    using assms by simp
  have cp: "go_copy (replicate (length ?src) 0) ?src = ?src"
    by (simp add: go_copy_def)
  show ?thesis
    using ne cp
    by (simp add: Clone_def mk NewSortedIntArrayFrom_def NewSortedIntArraySize_def copy_in_def
        sort_Ints_in_def)
qed

text \<open>
  C6, amended. \<^verbatim>\<open>Clone\<close> never panics. It returns a new structure whose elements
  are an independent copy of the source's elements: its backing array is freshly
  allocated, different from the source's, every array allocated before is left as it
  was, and the new array holds the source's elements, sorted by the constructor (so the
  same sequence when the source is in order). Its concurrency mode is the source's:
  the clone is in safe mode if and only if the source is.
\<close>

theorem Clone_keeps_mode:
  assumes "array a < top h"
  shows "\<exists>h' c. Clone h a = Inr (h', c)
           \<and> array c = top h \<and> array c \<noteq> array a \<and> top h' = Suc (top h)
           \<and> (\<forall>r. r \<noteq> array c \<longrightarrow> cells h' r = cells h r)
           \<and> cells h' (array c) = sort (cells h (array a))
           \<and> (ordered (cells h (array a)) \<longrightarrow> cells h' (array c) = cells h (array a))
           \<and> (IsSafe (mu c) \<longleftrightarrow> IsSafe (mu a))"
proof -
  have "sorted (cells h (array a)) \<longrightarrow> sort (cells h (array a)) = cells h (array a)"
    by (simp add: sort_key_id_if_sorted)
  then show ?thesis
    using assms by (simp add: Clone_result New_def IsSafe_def ordered_iff_sorted)
qed

theorem Clone_keeps_mode_witness:
  "array \<lparr>mu = New [True], array = 0::ref, unique = True\<rparr>
     < top \<lparr>cells = (\<lambda>r. if r = 0 then [1, 2] else []), top = 1\<rparr>
   \<and> (\<exists>h' c. Clone \<lparr>cells = (\<lambda>r. if r = 0 then [1, 2] else []), top = 1\<rparr>
                   \<lparr>mu = New [True], array = 0, unique = True\<rparr> = Inr (h', c)
         \<and> array c = 1 \<and> cells h' 0 = [1, 2] \<and> cells h' 1 = [1, 2]
         \<and> ordered [1, 2]
         \<and> \<not> IsSafe (mu c) \<and> \<not> IsSafe (mu \<lparr>mu = New [True], array = 0::ref, unique = True\<rparr>))"
  using Clone_keeps_mode[of "\<lparr>mu = New [True], array = 0, unique = True\<rparr>"
      "\<lparr>cells = (\<lambda>r. if r = 0 then [1, 2] else []), top = 1\<rparr>"]
  by (auto simp add: compareFunc_def New_def IsSafe_def)

text \<open>After the clone, writing to either array leaves the other as it is.\<close>

lemma Clone_independent:
  assumes "array a < top h" and "Clone h a = Inr (h', c)"
  shows "cells (h'\<lparr>cells := (cells h')(array c := xs)\<rparr>) (array a) = cells h (array a)"
    and "cells (h'\<lparr>cells := (cells h')(array a := xs)\<rparr>) (array c) = sort (cells h (array a))"
  using assms by (auto simp: Clone_result)

section \<open>Merge\<close>

text \<open>
  C5, as stated: a self-merge leaves the contents unchanged. \<^verbatim>\<open>Merge\<close> appends the
  argument's elements to the receiver's and sorts; when the argument is the receiver,
  the contents \<open>[1, 2]\<close> become \<open>[1, 1, 2, 2]\<close>.
\<close>

theorem Merge_self_doubles:
  "(case Merge [0 \<mapsto> \<lparr>mu = New [], array = [1, 2], unique = False\<rparr>] 0 0 of
      Inl e \<Rightarrow> None
    | Inr s \<Rightarrow> map_option array (s 0)) = Some [1, 1, 2, 2]"
  by (simp add: Merge_def)

text \<open>
  C5, amended. Merging a structure with itself takes the receiver's write lock once
  and no read lock, and replaces the contents by the sorted sequence that holds every
  element twice: the length doubles, and the contents are unchanged only if the
  structure is empty.
\<close>

theorem Merge_self:
  assumes "s p = Some a"
  shows "Merge s p p = Inr (s(p \<mapsto> a\<lparr>array := sort (array a @ array a)\<rparr>))
         \<and> length (sort (array a @ array a)) = 2 * length (array a)
         \<and> (sort (array a @ array a) = array a \<longleftrightarrow> array a = [])
         \<and> Merge_locks p p = [Lock p, Unlock p]"
proof -
  have "sort (array a @ array a) = array a \<longleftrightarrow> array a = []"
  proof
    assume "sort (array a @ array a) = array a"
    then have "length (sort (array a @ array a)) = length (array a)"
      by simp
    then show "array a = []"
      by simp
  qed simp
  then show ?thesis
    using assms by (simp add: Merge_def Merge_locks_def)
qed

theorem Merge_self_witness:
  "[0 \<mapsto> (\<lparr>mu = New [], array = [5, 1], unique = False\<rparr> :: SortedIntArray)] (0::nat)
      = Some \<lparr>mu = New [], array = [5, 1], unique = False\<rparr>
   \<and> Merge [0 \<mapsto> \<lparr>mu = New [], array = [5, 1], unique = False\<rparr>] 0 0
      = Inr ([0 \<mapsto> \<lparr>mu = New [], array = [5, 1], unique = False\<rparr>]
              (0 \<mapsto> \<lparr>mu = New [], array = [1, 1, 5, 5], unique = False\<rparr>))
   \<and> Merge_locks 0 0 = [Lock 0, Unlock 0]"
  using Merge_self[of "[0 \<mapsto> \<lparr>mu = New [], array = [5, 1], unique = False\<rparr>]" 0
      "\<lparr>mu = New [], array = [5, 1], unique = False\<rparr>"]
  by simp

section \<open>Chunk\<close>


lemma Chunk_loop_step:
  assumes "1 \<le> sz" and "sz < 2 ^ 63" and "int (length xs) < 2 ^ 53"
    and "int i * sz < int (length xs)"
  shows "go_slice xs (wrap64 (int i * sz))
           (if wrap64 ((int i + 1) * sz) > int (length xs) then int (length xs)
            else wrap64 ((int i + 1) * sz))
         = Inr (take (nat sz) (drop (i * nat sz) xs))"
proof -
  let ?L = "int (length xs)"
  have lo: "0 \<le> int i * sz"
    using assms(1) by simp
  have hi: "(int i + 1) * sz < 2 ^ 63"
  proof (cases "sz \<le> ?L")
    case True
    have "(int i + 1) * sz = int i * sz + sz"
      by (simp add: algebra_simps)
    with True assms(3,4) have "(int i + 1) * sz < 2 ^ 53 + 2 ^ 53"
      by linarith
    then show ?thesis
      by simp
  next
    case False
    have "i = 0"
    proof (rule ccontr)
      assume "i \<noteq> 0"
      then have "1 * sz \<le> int i * sz"
        using assms(1) by (intro mult_right_mono) auto
      with False assms(4) show False
        by simp
    qed
    with assms(2) show ?thesis
      by simp
  qed
  have w1: "wrap64 (int i * sz) = int i * sz"
    using lo assms(3,4) by (intro wrap64_id) auto
  have "0 \<le> (int i + 1) * sz"
    using assms(1) by simp
  then have w2: "wrap64 ((int i + 1) * sz) = (int i + 1) * sz"
    using hi by (intro wrap64_id) auto
  have n: "nat (int i * sz) = i * nat sz"
    using assms(1) by (simp add: nat_mult_distrib)
  have e: "(int i + 1) * sz = int i * sz + sz"
    by (simp add: algebra_simps)
  show ?thesis
  proof (cases "(int i + 1) * sz > ?L")
    case True
    then have "length (drop (i * nat sz) xs) \<le> nat sz"
      using n e assms(1,4) by (simp add: nat_le_iff)
    then have "take (nat sz) (drop (i * nat sz) xs) = drop (i * nat sz) xs"
      by simp
    moreover have "go_slice xs (int i * sz) ?L = Inr (drop (i * nat sz) xs)"
      using lo assms(4) n by (simp add: go_slice_def)
    ultimately show ?thesis
      using True w1 w2 by simp
  next
    case False
    have "nat ((int i + 1) * sz) - nat (int i * sz) = nat sz"
      using e lo assms(1) by (simp add: nat_add_distrib)
    then have "go_slice xs (int i * sz) ((int i + 1) * sz) = Inr (take (nat sz) (drop (i * nat sz) xs))"
      using lo False assms(1) n e by (simp add: go_slice_def)
    with False w1 w2 show ?thesis
      by simp
  qed
qed

lemma Chunk_loop_chunks:
  assumes "1 \<le> sz" and "sz < 2 ^ 63" and "int (length xs) < 2 ^ 53"
    and "\<forall>j. i \<le> j \<and> j < i + c \<longrightarrow> int j * sz < int (length xs)"
  shows "Chunk_loop xs sz (int i) (int c) n
           = Inr (foldl go_append n (map (\<lambda>j. take (nat sz) (drop (j * nat sz) xs)) [i..<i + c]))"
  using assms(4)
proof (induction c arbitrary: i n)
  case 0
  show ?case
    by (subst Chunk_loop.simps) simp
next
  case (Suc c)
  let ?f = "\<lambda>j. take (nat sz) (drop (j * nat sz) xs)"
  have "int i * sz < int (length xs)"
    using Suc.prems by simp
  note step = Chunk_loop_step[OF assms(1,2,3) this]
  have "Chunk_loop xs sz (int i) (int (Suc c)) n
          = Chunk_loop xs sz (int i + 1) (int (Suc c) - 1) (go_append n (?f i))"
    by (subst Chunk_loop.simps) (simp add: Let_def step del: of_nat_Suc)
  also have "\<dots> = Chunk_loop xs sz (int (Suc i)) (int c) (go_append n (?f i))"
    by (simp add: ac_simps)
  also have "\<dots> = Inr (foldl go_append (go_append n (?f i)) (map ?f [Suc i..<Suc i + c]))"
    using Suc.prems by (intro Suc.IH) auto
  also have "foldl go_append (go_append n (?f i)) (map ?f [Suc i..<Suc i + c])
               = foldl go_append n (map ?f [i..<i + Suc c])"
  proof -
    have "[i..<i + Suc c] = i # [Suc i..<Suc i + c]"
      by (subst upt_rec) simp
    then show ?thesis
      by (simp only: list.map foldl.simps)
  qed
  finally show ?case .
qed

lemma foldl_go_append:
  "foldl go_append n cs = (if cs = [] then n else Some (elems n @ cs))"
  by (induction cs arbitrary: n) (auto simp: go_append_def elems_def split: option.splits)

lemma concat_chunks:
  "concat (map (\<lambda>j. take s (drop (j * s) xs)) [0..<c]) = take (c * s) xs"
proof (induction c)
  case 0
  show ?case by simp
next
  case (Suc c)
  have "take (Suc c * s) xs = take (c * s + s) xs"
    by (simp add: add.commute)
  also have "\<dots> = take (c * s) xs @ take s (drop (c * s) xs)"
    by (rule take_add)
  finally show ?case
    using Suc.IH by simp
qed

lemma ceil_div_bounds:
  assumes "1 \<le> d" and "0 \<le> n"
  shows "0 \<le> ceil_div n d" and "n \<le> ceil_div n d * d" and "(ceil_div n d - 1) * d < n"
proof -
  have eq: "ceil_div n d * d = n + (- n) mod d"
    unfolding ceil_div_def by (simp add: algebra_simps minus_mod_eq_mult_div [symmetric])
  have m: "0 \<le> (- n) mod d" "(- n) mod d < d"
    using assms(1) by simp_all
  show "n \<le> ceil_div n d * d"
    using eq m by simp
  show "(ceil_div n d - 1) * d < n"
    using eq m by (simp add: algebra_simps)
  show "0 \<le> ceil_div n d"
    unfolding ceil_div_def using assms by (simp add: div_nonpos_pos_le0)
qed

lemma Chunk_chunks:
  assumes "int (length (array a)) < 2 ^ 53" and "1 \<le> sz" and "sz < 2 ^ 63"
  shows "\<exists>cs. Chunk a sz = Inr cs
           \<and> elems cs = map (\<lambda>j. take (nat sz) (drop (j * nat sz) (array a)))
                           [0..<nat (ceil_div (int (length (array a))) sz)]
           \<and> (cs = None \<longleftrightarrow> array a = [])"
proof -
  let ?xs = "array a"
  let ?L = "int (length ?xs)"
  let ?f = "\<lambda>j. take (nat sz) (drop (j * nat sz) ?xs)"
  define c where "c = nat (ceil_div ?L sz)"
  note cd = ceil_div_bounds[OF assms(2), of ?L, simplified]
  have c: "ceil_div ?L sz = int c"
    using cd(1) by (simp add: c_def)
  have "int j * sz < ?L" if "j < c" for j
  proof -
    from that have "int j \<le> int c - 1"
      by simp
    then have "int j * sz \<le> (int c - 1) * sz"
      using assms(2) by (intro mult_right_mono) auto
    with cd(3) c show ?thesis
      by simp
  qed
  then have "Chunk_loop ?xs sz (int 0) (int c) None = Inr (foldl go_append None (map ?f [0..<0 + c]))"
    using assms by (intro Chunk_loop_chunks) auto
  then have run: "Chunk a sz = Inr (foldl go_append None (map ?f [0..<c]))"
    using assms(2) c by (simp add: Chunk_def)
  have "c = 0 \<longleftrightarrow> ?xs = []"
  proof
    assume "c = 0"
    with cd(2) c show "?xs = []" by simp
  next
    assume "?xs = []"
    then show "c = 0" by (simp add: c_def ceil_div_def)
  qed
  then show ?thesis
    using run by (simp add: foldl_go_append elems_def c_def[symmetric])
qed

text \<open>
  C7. The chunk law, for a structure of fewer than \<open>2 ^ 53\<close> elements and a size in
  the range of \<^verbatim>\<open>int\<close>. For \<open>size \<ge> 1\<close>, \<^verbatim>\<open>Chunk\<close> returns without a panic, the
  chunks concatenated in order are the contents, every chunk but the last has exactly
  \<open>size\<close> elements, and no chunk is empty or longer than \<open>size\<close>. For \<open>size < 1\<close> it
  returns \<^verbatim>\<open>nil\<close>.
\<close>

theorem Chunk_law:
  assumes "int (length (array a)) < 2 ^ 53" and "sz < 2 ^ 63"
  shows "(1 \<le> sz \<longrightarrow>
            (\<exists>cs. Chunk a sz = Inr cs
               \<and> concat (elems cs) = array a
               \<and> (\<forall>j. Suc j < length (elems cs) \<longrightarrow> int (length (elems cs ! j)) = sz)
               \<and> (\<forall>c \<in> set (elems cs). c \<noteq> [] \<and> int (length c) \<le> sz)))
         \<and> (sz < 1 \<longrightarrow> Chunk a sz = Inr None)"
proof (intro conjI impI)
  assume "sz < 1"
  then show "Chunk a sz = Inr None"
    by (simp add: Chunk_def)
next
  assume sz: "1 \<le> sz"
  let ?xs = "array a"
  let ?L = "int (length ?xs)"
  let ?s = "nat sz"
  let ?f = "\<lambda>j. take ?s (drop (j * ?s) ?xs)"
  define c where "c = nat (ceil_div ?L sz)"
  from Chunk_chunks[OF assms(1) sz assms(2)] obtain cs
    where cs: "Chunk a sz = Inr cs" "elems cs = map ?f [0..<c]"
    unfolding c_def by blast
  note cd = ceil_div_bounds[OF sz, of ?L, simplified]
  have c: "ceil_div ?L sz = int c"
    using cd(1) by (simp add: c_def)
  have s: "int ?s = sz" "0 < ?s"
    using sz by auto
  have upper: "length ?xs \<le> c * ?s"
  proof -
    have "?L \<le> int (c * ?s)"
      using cd(2) c s(1) by simp
    then show ?thesis
      by linarith
  qed
  have lower: "j * ?s < length ?xs" if "j < c" for j
  proof -
    from that have "int j \<le> int c - 1"
      by simp
    then have "int j * sz \<le> (int c - 1) * sz"
      using sz by (intro mult_right_mono) auto
    with cd(3) c have "int (j * ?s) < ?L"
      using s(1) by simp
    then show ?thesis
      by linarith
  qed
  have "concat (elems cs) = ?xs"
    using upper by (simp add: cs(2) concat_chunks)
  moreover have "int (length (elems cs ! j)) = sz" if "Suc j < length (elems cs)" for j
  proof -
    from that have j: "Suc j < c"
      by (simp add: cs(2))
    have "j * ?s + ?s < length ?xs"
      using lower[OF j] by (simp add: add.commute)
    then have "length (?f j) = ?s"
      by simp
    then show ?thesis
      using j s(1) by (simp add: cs(2))
  qed
  moreover have "c' \<noteq> [] \<and> int (length c') \<le> sz" if "c' \<in> set (elems cs)" for c'
  proof -
    from that obtain j where j: "j < c" "c' = ?f j"
      by (auto simp: cs(2))
    then show ?thesis
      using lower[OF j(1)] s by auto
  qed
  ultimately show "\<exists>cs. Chunk a sz = Inr cs \<and> concat (elems cs) = array a
      \<and> (\<forall>j. Suc j < length (elems cs) \<longrightarrow> int (length (elems cs ! j)) = sz)
      \<and> (\<forall>c \<in> set (elems cs). c \<noteq> [] \<and> int (length c) \<le> sz)"
    using cs(1) by blast
qed

text \<open>Contents \<open>[1, 2, 3, 4, 5]\<close> in chunks of two; size zero; the empty structure.\<close>

lemma Chunk_scenario:
  "Chunk \<lparr>mu = New [], array = [1, 2, 3, 4, 5], unique = False\<rparr> 2 = Inr (Some [[1, 2], [3, 4], [5]])
   \<and> Chunk \<lparr>mu = New [], array = [1, 2, 3, 4, 5], unique = False\<rparr> 0 = Inr None
   \<and> Chunk \<lparr>mu = New [], array = [], unique = False\<rparr> 2 = Inr None"
  by (simp add: Chunk_def ceil_div_def Chunk_loop.simps wrap64_def go_slice_def go_append_def)

theorem Chunk_law_witness:
  "int (length (array (\<lparr>mu = New [], array = [1, 2, 3, 4, 5], unique = False\<rparr> :: SortedIntArray)))
     < 2 ^ 53
   \<and> (2::int) < 2 ^ 63 \<and> (1::int) \<le> 2
   \<and> (\<exists>cs. Chunk \<lparr>mu = New [], array = [1, 2, 3, 4, 5], unique = False\<rparr> 2 = Inr cs
         \<and> concat (elems cs) = array \<lparr>mu = New [], array = [1, 2, 3, 4, 5], unique = False\<rparr>
         \<and> int (length (elems cs ! 0)) = 2)
   \<and> (0::int) < 2 ^ 63 \<and> (0::int) < 1
   \<and> Chunk \<lparr>mu = New [], array = [1, 2, 3, 4, 5], unique = False\<rparr> 0 = Inr None"
proof -
  let ?a = "\<lparr>mu = New [], array = [1, 2, 3, 4, 5], unique = False\<rparr> :: SortedIntArray"
  have len: "int (length (array ?a)) < 2 ^ 53"
    by simp
  have two: "\<exists>cs. Chunk ?a 2 = Inr cs \<and> concat (elems cs) = array ?a
               \<and> int (length (elems cs ! 0)) = 2"
  proof -
    from Chunk_law[OF len, of 2] obtain cs where cs: "Chunk ?a 2 = Inr cs"
      "concat (elems cs) = array ?a"
      "\<forall>j. Suc j < length (elems cs) \<longrightarrow> int (length (elems cs ! j)) = 2"
      by auto
    from cs(1) have "cs = Some [[1, 2], [3, 4], [5]]"
      using Chunk_scenario by simp
    then have "Suc 0 < length (elems cs)"
      by (simp add: elems_def)
    with cs show ?thesis
      by blast
  qed
  have zero: "Chunk ?a 0 = Inr None"
    using Chunk_law[OF len, of 0] by simp
  show ?thesis
    using len two zero by simp
qed

end
